theory Spec2Isabelle
  imports Complex_Main "HOL-Library.Sublist"
begin

section \<open>Python values read by the transcription pipeline\<close>

text \<open>
  The embedded functions are \<^verbatim>\<open>filter_duplicates\<close> and
  \<^verbatim>\<open>format_diarized_transcription\<close> of \<^verbatim>\<open>trans_transcriber.py\<close>.
  They read attributes of objects handed in by the caller. An attribute of such an object
  is either not there at all (reading it raises \<^verbatim>\<open>AttributeError\<close>), there with
  the value \<^verbatim>\<open>None\<close>, or there with a proper value. Strings are lists of
  code points below 256; a speaker label is the text that the f-string prints for it.
  A timestamp is a finite Python float (an IEEE 754 binary64 number), modelled by the real
  number it denotes; the subtraction of two of them rounds, as in the section on floats below.
\<close>

datatype error = AttributeError string | TypeError

datatype 'a attr = Absent | PyNone | Val 'a

record utterance =
  u_transcript :: "string attr"
  u_start :: "real attr"
  u_end :: "real attr"
  u_speaker :: "string attr"

record word =
  punctuated_word :: "string attr"

text \<open>
  The dictionary that \<^verbatim>\<open>filter_duplicates\<close> appends for a kept utterance; its key
  \<^verbatim>\<open>"text"\<close> is the field \<open>utt_text\<close>.
\<close>

record cleaned =
  start_time :: "real option"
  end_time :: "real option"
  speaker :: "string option"
  utt_text :: string

subsection \<open>String methods\<close>

text \<open>\<^verbatim>\<open>str.strip()\<close>: the characters for which \<^verbatim>\<open>str.isspace\<close> holds, below 256.\<close>

definition is_space :: "char \<Rightarrow> bool" where
  "is_space c \<longleftrightarrow>
     c \<in> {CHR 0x09, CHR 0x0A, CHR 0x0B, CHR 0x0C, CHR 0x0D, CHR 0x1C, CHR 0x1D, CHR 0x1E,
          CHR 0x1F, CHR 0x20, CHR 0x85, CHR 0xA0}"

definition strip :: "string \<Rightarrow> string" where
  "strip s = rev (dropWhile is_space (rev (dropWhile is_space s)))"

text \<open>\<^verbatim>\<open>sep.join(parts)\<close>\<close>

fun str_join :: "string \<Rightarrow> string list \<Rightarrow> string" where
  "str_join sep [] = []"
| "str_join sep [x] = x"
| "str_join sep (x # y # ys) = x @ sep @ str_join sep (y # ys)"

subsection \<open>Attribute access\<close>

text \<open>\<^verbatim>\<open>obj.name\<close>: raises when the attribute is not there, and returns \<^verbatim>\<open>None\<close> as it is.\<close>

fun getattr :: "string \<Rightarrow> 'a attr \<Rightarrow> error + 'a option" where
  "getattr name Absent = Inl (AttributeError name)"
| "getattr name PyNone = Inr None"
| "getattr name (Val v) = Inr (Some v)"

text \<open>\<^verbatim>\<open>getattr(obj, name, default)\<close>: the default only replaces an attribute that is not there.\<close>

fun getattr_default :: "'a attr \<Rightarrow> 'a \<Rightarrow> 'a option" where
  "getattr_default Absent d = Some d"
| "getattr_default PyNone d = None"
| "getattr_default (Val v) d = Some v"

text \<open>\<^verbatim>\<open>obj.name.strip()\<close>: \<^verbatim>\<open>None\<close> has no method \<^verbatim>\<open>strip\<close>.\<close>

fun stripped :: "string \<Rightarrow> string attr \<Rightarrow> error + string" where
  "stripped name Absent = Inl (AttributeError name)"
| "stripped name PyNone = Inl (AttributeError ''strip'')"
| "stripped name (Val s) = Inr (strip s)"

subsection \<open>Subtraction of floats\<close>

text \<open>
  A binary64 number has a sign, 53 significant bits and a binary exponent from -1022 to 1023;
  the numbers below \<^verbatim>\<open>2^-1022\<close> are subnormal and keep the spacing of the least normal ones.
  \<^verbatim>\<open>x - y\<close> on floats is the exact difference rounded to the nearest such number, a tie
  going to the one with an even last bit.

  \<open>round_half_even\<close> rounds a real to the nearest integer, ties to the even one.
\<close>

definition round_half_even :: "real \<Rightarrow> int" where
  "round_half_even y =
     (let f = \<lfloor>y\<rfloor> in
      if y - of_int f < 1 / 2 then f
      else if 1 / 2 < y - of_int f then f + 1
      else if even f then f else f + 1)"

text \<open>
  The binary exponent of a magnitude \<open>a\<close>: the greatest \<open>e\<close> from -1021 to 1023 with
  \<^verbatim>\<open>2^e <= a\<close>, found by looking downwards from 1023, and -1022 when there is none.
\<close>

primrec expo_search :: "nat \<Rightarrow> real \<Rightarrow> int" where
  "expo_search 0 a = - 1022"
| "expo_search (Suc n) a =
     (if 2 powi (int n - 1021) \<le> a then int n - 1021 else expo_search n a)"

definition exponent :: "real \<Rightarrow> int" where
  "exponent a = expo_search 2045 a"

text \<open>
  Rounding a magnitude: the numbers with exponent \<open>e\<close> are the multiples of \<^verbatim>\<open>2^(e-52)\<close>, and
  the last bit is even exactly when the multiple is. Rounding is the same for both signs.
  A result of \<^verbatim>\<open>2^1024\<close> or more stands for Python's infinity: like infinity, it is not
  below 0.5, which is all that the code asks of a difference.
\<close>

definition round_magnitude :: "real \<Rightarrow> real" where
  "round_magnitude a =
     (let u = 2 powi (exponent a - 52) in of_int (round_half_even (a / u)) * u)"

definition round_double :: "real \<Rightarrow> real" where
  "round_double x = sgn x * round_magnitude \<bar>x\<bar>"

definition float_sub :: "real \<Rightarrow> real \<Rightarrow> real" where
  "float_sub x y = round_double (x - y)"

section \<open>filter_duplicates\<close>

text \<open>
  \<^verbatim>\<open>abs(start_time - filtered[-1]["end_time"]) < 0.5\<close>: the difference is the rounded
  one, its absolute value and the comparison with 0.5 are exact, and subtracting with a
  \<^verbatim>\<open>None\<close> operand raises \<^verbatim>\<open>TypeError\<close>.
\<close>

fun too_close :: "real option \<Rightarrow> real option \<Rightarrow> error + bool" where
  "too_close (Some s) (Some e) = Inr (\<bar>float_sub s e\<bar> < 1 / 2)"
| "too_close _ _ = Inl TypeError"

text \<open>
  One iteration of the loop over \<^verbatim>\<open>utterances\<close>, on the loop's two variables
  \<^verbatim>\<open>filtered\<close> and \<^verbatim>\<open>seen_texts\<close>. The three attribute reads come first, then the
  two \<^verbatim>\<open>continue\<close> tests in the order of the source (the second one only looks at the
  timestamps when \<^verbatim>\<open>filtered\<close> is non-empty), then the append.
\<close>

definition keep :: "utterance \<Rightarrow> string \<Rightarrow> real option \<Rightarrow> real option \<Rightarrow> cleaned" where
  "keep utterance txt start_t end_t =
     \<lparr>start_time = start_t, end_time = end_t,
      speaker = getattr_default (u_speaker utterance) ''Unknown Speaker'',
      utt_text = txt\<rparr>"

definition filter_step ::
  "utterance \<Rightarrow> cleaned list \<Rightarrow> string set \<Rightarrow> error + (cleaned list \<times> string set)" where
  "filter_step utterance filtered seen_texts =
     (case stripped ''transcript'' (u_transcript utterance) of
        Inl e \<Rightarrow> Inl e
      | Inr txt \<Rightarrow>
     (case getattr ''start'' (u_start utterance) of
        Inl e \<Rightarrow> Inl e
      | Inr start_t \<Rightarrow>
     (case getattr ''end'' (u_end utterance) of
        Inl e \<Rightarrow> Inl e
      | Inr end_t \<Rightarrow>
        if txt \<in> seen_texts then Inr (filtered, seen_texts)
        else if filtered = [] then
          Inr (filtered @ [keep utterance txt start_t end_t], insert txt seen_texts)
        else
          (case too_close start_t (end_time (last filtered)) of
             Inl e \<Rightarrow> Inl e
           | Inr True \<Rightarrow> Inr (filtered, seen_texts)
           | Inr False \<Rightarrow>
               Inr (filtered @ [keep utterance txt start_t end_t], insert txt seen_texts)))))"

fun filter_loop :: "utterance list \<Rightarrow> cleaned list \<Rightarrow> string set \<Rightarrow> error + cleaned list" where
  "filter_loop [] filtered seen_texts = Inr filtered"
| "filter_loop (utterance # rest) filtered seen_texts =
     (case filter_step utterance filtered seen_texts of
        Inl e \<Rightarrow> Inl e
      | Inr (filtered', seen_texts') \<Rightarrow> filter_loop rest filtered' seen_texts')"

definition filter_duplicates :: "utterance list \<Rightarrow> error + cleaned list" where
  "filter_duplicates utterances = filter_loop utterances [] {}"

section \<open>format_diarized_transcription\<close>

text \<open>\<^verbatim>\<open>f"{current_speaker}: {' '.join(current_text)}"\<close>\<close>

definition block :: "string \<Rightarrow> string list \<Rightarrow> string" where
  "block current_speaker current_text = current_speaker @ '': '' @ str_join '' '' current_text"

text \<open>
  Appending the block of the current speaker is guarded by
  \<^verbatim>\<open>current_speaker is not None\<close>, in the loop and after it.
\<close>

fun flush :: "string list \<Rightarrow> string option \<Rightarrow> string list \<Rightarrow> string list" where
  "flush speaker_transcriptions None current_text = speaker_transcriptions"
| "flush speaker_transcriptions (Some c) current_text =
     speaker_transcriptions @ [block c current_text]"

text \<open>
  The loop over the filtered utterances, on \<^verbatim>\<open>speaker_transcriptions\<close>,
  \<^verbatim>\<open>current_speaker\<close> (initially \<^verbatim>\<open>None\<close>) and \<^verbatim>\<open>current_text\<close>.
\<close>

fun group_loop ::
  "cleaned list \<Rightarrow> string list \<Rightarrow> string option \<Rightarrow> string list \<Rightarrow>
   string list \<times> string option \<times> string list" where
  "group_loop [] speaker_transcriptions current_speaker current_text =
     (speaker_transcriptions, current_speaker, current_text)"
| "group_loop (utterance # rest) speaker_transcriptions current_speaker current_text =
     (if speaker utterance = current_speaker then
        group_loop rest speaker_transcriptions current_speaker (current_text @ [utt_text utterance])
      else
        group_loop rest (flush speaker_transcriptions current_speaker current_text)
          (speaker utterance) [utt_text utterance])"

text \<open>The fallback loop over \<^verbatim>\<open>words\<close>, on \<^verbatim>\<open>seen_texts\<close> and \<^verbatim>\<open>speaker_transcriptions\<close>.\<close>

fun words_loop :: "word list \<Rightarrow> string set \<Rightarrow> string list \<Rightarrow> error + string list" where
  "words_loop [] seen_texts speaker_transcriptions = Inr speaker_transcriptions"
| "words_loop (w # rest) seen_texts speaker_transcriptions =
     (case stripped ''punctuated_word'' (punctuated_word w) of
        Inl e \<Rightarrow> Inl e
      | Inr txt \<Rightarrow>
          if txt \<notin> seen_texts then
            words_loop rest (insert txt seen_texts)
              (speaker_transcriptions @ [''Unknown Speaker: '' @ txt])
          else words_loop rest seen_texts speaker_transcriptions)"

text \<open>Truth value of an optional list argument: \<^verbatim>\<open>None\<close> and the empty list are false.\<close>

fun truthy :: "'a list option \<Rightarrow> bool" where
  "truthy None = False"
| "truthy (Some xs) = (xs \<noteq> [])"

definition blank_line :: string where
  "blank_line = [CHR 0x0A, CHR 0x0A]"

definition format_diarized_transcription ::
  "utterance list option \<Rightarrow> word list option \<Rightarrow> error + string" where
  "format_diarized_transcription utterances words =
     (if truthy utterances then
        (case filter_duplicates (case utterances of Some us \<Rightarrow> us | None \<Rightarrow> []) of
           Inl e \<Rightarrow> Inl e
         | Inr filtered_utterances \<Rightarrow>
             (case group_loop filtered_utterances [] None [] of
                (speaker_transcriptions, current_speaker, current_text) \<Rightarrow>
                  Inr (str_join blank_line
                         (flush speaker_transcriptions current_speaker current_text))))
      else if truthy words then
        (case words_loop (case words of Some ws \<Rightarrow> ws | None \<Rightarrow> []) {} [] of
           Inl e \<Rightarrow> Inl e
         | Inr speaker_transcriptions \<Rightarrow> Inr (str_join blank_line speaker_transcriptions))
      else Inr (str_join blank_line []))"

section \<open>Notions used to state the properties\<close>

text \<open>
  The entry that \<^verbatim>\<open>filter_duplicates\<close> derives from an input utterance when it keeps
  it: the trimmed transcript, the two timestamps as read, and the speaker with its default.
\<close>

definition entry_of :: "utterance \<Rightarrow> cleaned" where
  "entry_of u =
     keep u (case u_transcript u of Val s \<Rightarrow> strip s | _ \<Rightarrow> [])
       (case u_start u of Val r \<Rightarrow> Some r | _ \<Rightarrow> None)
       (case u_end u of Val r \<Rightarrow> Some r | _ \<Rightarrow> None)"

text \<open>An utterance object and a word object with every attribute set.\<close>

definition utt :: "string \<Rightarrow> real \<Rightarrow> real \<Rightarrow> string \<Rightarrow> utterance" where
  "utt t s e sp = \<lparr>u_transcript = Val t, u_start = Val s, u_end = Val e, u_speaker = Val sp\<rparr>"

definition wrd :: "string \<Rightarrow> word" where
  "wrd t = \<lparr>punctuated_word = Val t\<rparr>"

text \<open>Exact deduplication of a list, keeping the first occurrence of every element.\<close>

fun first_occurrences :: "'a list \<Rightarrow> 'a list" where
  "first_occurrences [] = []"
| "first_occurrences (x # xs) = x # first_occurrences (filter (\<lambda>y. y \<noteq> x) xs)"

section \<open>The comparison of a rounded difference with 0.5\<close>

text \<open>
  The greatest float below 0.5 is \<^verbatim>\<open>1/2 - 2^-54\<close>, and the real half-way between the two
  rounds to 0.5, whose last bit is even. So a rounded difference is below 0.5 exactly when
  the exact one is below \<^verbatim>\<open>1/2 - 2^-55\<close>.
\<close>

lemma rhe_lower: "of_int n \<le> y \<Longrightarrow> n \<le> round_half_even y"
proof -
  assume "of_int n \<le> y"
  then have "n \<le> \<lfloor>y\<rfloor>" by (simp add: le_floor_iff)
  then show ?thesis unfolding round_half_even_def Let_def by auto
qed

lemma rhe_upper: "y \<le> of_int n \<Longrightarrow> round_half_even y \<le> n"
  unfolding round_half_even_def Let_def by auto linarith

lemma rhe_below_half: "y < of_int n + 1 / 2 \<Longrightarrow> round_half_even y \<le> n"
  unfolding round_half_even_def Let_def by auto linarith

lemma rhe_tie_up:
  assumes "of_int n - 1 / 2 \<le> y" "even n"
  shows "n \<le> round_half_even y"
proof -
  have "of_int (n - 1) \<le> y" using assms(1) by simp
  then have f: "n - 1 \<le> \<lfloor>y\<rfloor>" by (simp only: le_floor_iff)
  show ?thesis
  proof (cases "n \<le> \<lfloor>y\<rfloor>")
    case True
    then show ?thesis unfolding round_half_even_def Let_def by auto
  next
    case False
    with f have eq: "\<lfloor>y\<rfloor> = n - 1" by simp
    with assms(2) have "odd \<lfloor>y\<rfloor>" by simp
    moreover have "\<not> y - of_int \<lfloor>y\<rfloor> < 1 / 2" using assms(1) eq by simp
    ultimately show ?thesis unfolding round_half_even_def Let_def using eq by simp
  qed
qed

lemma expo_search_ge: "- 1022 \<le> expo_search n a"
  by (induction n) auto

lemma expo_search_lower: "expo_search n a \<noteq> - 1022 \<Longrightarrow> 2 powi (expo_search n a) \<le> a"
  by (induction n) (auto split: if_splits)

lemma expo_search_upper:
  "a < 2 powi (int n - 1021) \<Longrightarrow> a < 2 powi (expo_search n a + 1)"
proof (induction n)
  case 0
  then show ?case by simp
next
  case (Suc n)
  show ?case
  proof (cases "2 powi (int n - 1021) \<le> a")
    case True
    have "int (Suc n) - 1021 = int n - 1021 + 1" by simp
    with Suc.prems True show ?thesis by simp
  next
    case False
    then have "a < 2 powi (int n - 1021)" by simp
    from Suc.IH[OF this] False show ?thesis by simp
  qed
qed

lemma expo_search_mono_bound:
  "2 powi k \<le> a \<Longrightarrow> k \<le> int n - 1022 \<Longrightarrow> k \<le> expo_search n a"
proof (induction n)
  case 0
  then show ?case by simp
next
  case (Suc n)
  show ?case
  proof (cases "2 powi (int n - 1021) \<le> a")
    case True
    with Suc.prems show ?thesis by simp
  next
    case False
    with Suc.prems(1) have "k \<noteq> int n - 1021" by auto
    with Suc.prems(2) have "k \<le> int n - 1022" by simp
    from Suc.IH[OF Suc.prems(1) this] False show ?thesis by simp
  qed
qed


lemma exponent_lower: "2 powi k \<le> a \<Longrightarrow> k \<le> 1023 \<Longrightarrow> k \<le> exponent a"
  unfolding exponent_def by (rule expo_search_mono_bound) simp_all

lemma exponent_below: "exponent a \<noteq> - 1022 \<Longrightarrow> 2 powi (exponent a) \<le> a"
  unfolding exponent_def by (rule expo_search_lower)

lemma exponent_above: "a < 2 powi 1024 \<Longrightarrow> a < 2 powi (exponent a + 1)"
  unfolding exponent_def using expo_search_upper[of a 2045] by simp

lemma pow2_mono: "k \<le> l \<Longrightarrow> (2::real) powi k \<le> 2 powi l"
  by (rule power_int_increasing) simp_all

lemma pow2_split: "(2::real) powi k = 2 powi 52 * 2 powi (k - 52)"
  by (simp add: power_int_add[symmetric] del: power_int_numeral)

lemma pow2_split1: "(2::real) powi (k + 1) = 2 powi 53 * 2 powi (k - 52)"
  by (simp add: power_int_add[symmetric] add.commute del: power_int_numeral)

lemma exponent_quarter:
  assumes "1 / 4 \<le> a" "a < 1 / 2"
  shows "exponent a = - 2"
proof -
  have "(2::real) powi (- 2) \<le> a" using assms(1) by (simp add: power_int_minus_divide)
  then have lo: "- 2 \<le> exponent a" by (rule exponent_lower) simp
  have "exponent a \<le> - 2"
  proof (rule ccontr)
    assume "\<not> exponent a \<le> - 2"
    then have ge: "- 1 \<le> exponent a" by simp
    then have "exponent a \<noteq> - 1022" by simp
    then have "2 powi (exponent a) \<le> a" by (rule exponent_below)
    moreover have "(2::real) powi (- 1) \<le> 2 powi (exponent a)" using ge by (rule pow2_mono)
    ultimately have "1 / 2 \<le> a" by (simp add: power_int_minus_divide)
    with assms(2) show False by simp
  qed
  with lo show ?thesis by simp
qed

lemma round_magnitude_ge:
  assumes "1 / 2 - 1 / 2 ^ 55 \<le> a"
  shows "1 / 2 \<le> round_magnitude a"
proof (cases "1 / 2 \<le> a")
  case True
  let ?e = "exponent a"
  let ?u = "(2::real) powi (?e - 52)"
  have "(2::real) powi (- 1) \<le> a" using True by (simp add: power_int_minus_divide)
  then have ge: "- 1 \<le> ?e" by (rule exponent_lower) simp
  then have "?e \<noteq> - 1022" by simp
  then have "2 powi ?e \<le> a" by (rule exponent_below)
  then have "2 powi 52 * ?u \<le> a" using pow2_split[of ?e] by simp
  then have "2 powi 52 \<le> a / ?u" by (simp add: pos_le_divide_eq)
  then have "of_int (2 ^ 52) \<le> a / ?u" by simp
  then have "2 ^ 52 \<le> round_half_even (a / ?u)" by (rule rhe_lower)
  then have "(of_int (2 ^ 52) :: real) \<le> of_int (round_half_even (a / ?u))"
    by (simp only: of_int_le_iff)
  then have "(2::real) ^ 52 \<le> of_int (round_half_even (a / ?u))"
    by simp
  then have "2 powi 52 * ?u \<le> round_magnitude a"
    unfolding round_magnitude_def Let_def by (simp add: mult_right_mono)
  then have "2 powi ?e \<le> round_magnitude a" using pow2_split[of ?e] by simp
  moreover have "(2::real) powi (- 1) \<le> 2 powi ?e" using ge by (rule pow2_mono)
  ultimately show ?thesis by (simp add: power_int_minus_divide)
next
  case False
  then have lt: "a < 1 / 2" by simp
  from assms have "1 / 4 \<le> a" by simp
  then have e: "exponent a = - 2" using lt by (rule exponent_quarter)
  have u: "(2::real) powi (- 54) = 1 / 2 ^ 54" by (simp add: power_int_minus_divide)
  have "of_int (2 ^ 53) - 1 / 2 \<le> a * 2 ^ 54" using assms by simp
  then have "2 ^ 53 \<le> round_half_even (a * 2 ^ 54)" by (rule rhe_tie_up) simp
  then have "(of_int (2 ^ 53) :: real) \<le> of_int (round_half_even (a * 2 ^ 54))"
    by (simp only: of_int_le_iff)
  then have "(2::real) ^ 53 \<le> of_int (round_half_even (a * 2 ^ 54))"
    by simp
  then show ?thesis unfolding round_magnitude_def Let_def e by (simp add: u)
qed

lemma round_magnitude_lt:
  assumes "0 \<le> a" "a < 1 / 2 - 1 / 2 ^ 55"
  shows "round_magnitude a < 1 / 2"
proof (cases "1 / 4 \<le> a")
  case True
  from assms(2) have lt: "a < 1 / 2" by simp
  from True lt have e: "exponent a = - 2" by (rule exponent_quarter)
  have u: "(2::real) powi (- 54) = 1 / 2 ^ 54" by (simp add: power_int_minus_divide)
  have "a * 2 ^ 54 < of_int (2 ^ 53 - 1) + 1 / 2" using assms(2) by simp
  then have "round_half_even (a * 2 ^ 54) \<le> 2 ^ 53 - 1" by (rule rhe_below_half)
  then have "of_int (round_half_even (a * 2 ^ 54)) \<le> (of_int (2 ^ 53 - 1) :: real)"
    by (simp only: of_int_le_iff)
  then have "of_int (round_half_even (a * 2 ^ 54)) \<le> (2::real) ^ 53 - 1"
    by simp
  then show ?thesis unfolding round_magnitude_def Let_def e by (simp add: u)
next
  case False
  then have lt: "a < 1 / 4" by simp
  let ?e = "exponent a"
  let ?u = "(2::real) powi (?e - 52)"
  have le: "?e \<le> - 3"
  proof (rule ccontr)
    assume "\<not> ?e \<le> - 3"
    then have ge: "- 2 \<le> ?e" by simp
    then have "?e \<noteq> - 1022" by simp
    then have "2 powi ?e \<le> a" by (rule exponent_below)
    moreover have "(2::real) powi (- 2) \<le> 2 powi ?e" using ge by (rule pow2_mono)
    ultimately have "1 / 4 \<le> a" by (simp add: power_int_minus_divide)
    with lt show False by simp
  qed
  have "a < 2 powi 1024" using lt by simp
  then have "a < 2 powi (?e + 1)" by (rule exponent_above)
  then have "a < 2 powi 53 * ?u" using pow2_split1[of ?e] by simp
  then have "a / ?u \<le> 2 powi 53" by (simp add: pos_divide_le_eq)
  then have "a / ?u \<le> of_int (2 ^ 53)" by simp
  then have "round_half_even (a / ?u) \<le> 2 ^ 53" by (rule rhe_upper)
  then have "of_int (round_half_even (a / ?u)) \<le> (of_int (2 ^ 53) :: real)"
    by (simp only: of_int_le_iff)
  then have "of_int (round_half_even (a / ?u)) \<le> (2::real) ^ 53"
    by simp
  then have "round_magnitude a \<le> 2 powi 53 * ?u"
    unfolding round_magnitude_def Let_def by (simp add: mult_right_mono)
  then have "round_magnitude a \<le> 2 powi (?e + 1)" using pow2_split1[of ?e] by simp
  moreover have "(2::real) powi (?e + 1) \<le> 2 powi (- 2)" using le by (intro pow2_mono) simp
  ultimately have "round_magnitude a \<le> 1 / 4" by (simp add: power_int_minus_divide)
  then show ?thesis by simp
qed

lemma abs_round_double: "\<bar>round_double d\<bar> = (if d = 0 then 0 else round_magnitude \<bar>d\<bar>)"
proof (cases "d = 0")
  case True
  then show ?thesis by (simp add: round_double_def)
next
  case False
  have "0 \<le> \<bar>d\<bar> / 2 powi (exponent \<bar>d\<bar> - 52)" by simp
  then have "of_int 0 \<le> \<bar>d\<bar> / 2 powi (exponent \<bar>d\<bar> - 52)" by simp
  then have "0 \<le> round_half_even (\<bar>d\<bar> / 2 powi (exponent \<bar>d\<bar> - 52))" by (rule rhe_lower)
  then have nn: "0 \<le> round_magnitude \<bar>d\<bar>" unfolding round_magnitude_def Let_def by simp
  have "round_double d = sgn d * round_magnitude \<bar>d\<bar>"
    by (simp add: round_double_def round_magnitude_def Let_def)
  then have "\<bar>round_double d\<bar> = \<bar>sgn d\<bar> * \<bar>round_magnitude \<bar>d\<bar>\<bar>" by (simp only: abs_mult)
  with False nn show ?thesis by (simp add: abs_sgn_eq)
qed

lemma round_double_close_iff: "\<bar>round_double d\<bar> < 1 / 2 \<longleftrightarrow> \<bar>d\<bar> < 1 / 2 - 1 / 2 ^ 55"
proof (cases "d = 0")
  case True
  then show ?thesis by (simp add: abs_round_double)
next
  case False
  show ?thesis
  proof (cases "\<bar>d\<bar> < 1 / 2 - 1 / 2 ^ 55")
    case True
    then have "round_magnitude \<bar>d\<bar> < 1 / 2" by (intro round_magnitude_lt) simp_all
    with True False show ?thesis by (simp add: abs_round_double)
  next
    case F: False
    then have "1 / 2 \<le> round_magnitude \<bar>d\<bar>" by (intro round_magnitude_ge) simp
    with F False show ?thesis by (simp add: abs_round_double)
  qed
qed

lemma float_sub_close_iff: "\<bar>float_sub s e\<bar> < 1 / 2 \<longleftrightarrow> \<bar>s - e\<bar> < 1 / 2 - 1 / 2 ^ 55"
  unfolding float_sub_def by (rule round_double_close_iff)

lemma too_close_exact:
  "too_close (Some s) (Some e) = Inr (\<bar>s - e\<bar> < 1 / 2 - 1 / 2 ^ 55)"
  by (simp only: too_close.simps float_sub_close_iff)

declare too_close.simps(1) [simp del]

text \<open>
  The floats 0.6 and 0.1 differ by \<^verbatim>\<open>1/2 - 2^-55\<close> exactly, and \<^verbatim>\<open>0.6 - 0.1\<close> is 0.5 in
  Python; 0.75 and 1.0 differ by a quarter.
\<close>

lemma too_close_examples:
  "too_close (Some (5404319552844595 / 2 ^ 53)) (Some (3602879701896397 / 2 ^ 55)) = Inr False"
  "too_close (Some (3 / 4)) (Some 1) = Inr True"
  by (simp_all add: too_close_exact)

section \<open>The deduplication loop\<close>

text \<open>An iteration that does not raise either leaves both variables alone or appends the entry
  of its utterance, whose text was not seen before.\<close>

lemma filter_step_cases:
  assumes "filter_step u f s = Inr (f', s')"
  shows "(f' = f \<and> s' = s) \<or>
         (f' = f @ [entry_of u] \<and> s' = insert (utt_text (entry_of u)) s \<and>
          utt_text (entry_of u) \<notin> s)"
  using assms
  by (cases "u_transcript u"; cases "u_start u"; cases "u_end u")
     (auto simp: filter_step_def entry_of_def keep_def split: if_splits sum.splits bool.splits)

lemma filter_loop_Cons_Inr:
  assumes "filter_loop (u # us) f s = Inr out"
  obtains f' s' where "filter_step u f s = Inr (f', s')" "filter_loop us f' s' = Inr out"
  using assms by (auto split: sum.splits)

lemma filter_loop_distinct:
  "filter_loop us f s = Inr out \<Longrightarrow> distinct (map utt_text f) \<Longrightarrow> utt_text ` set f \<subseteq> s \<Longrightarrow>
   distinct (map utt_text out)"
proof (induction us arbitrary: f s)
  case Nil
  then show ?case by simp
next
  case (Cons u us)
  from Cons.prems(1) obtain f' s' where st: "filter_step u f s = Inr (f', s')"
    and lp: "filter_loop us f' s' = Inr out"
    by (rule filter_loop_Cons_Inr)
  from filter_step_cases[OF st] have "distinct (map utt_text f') \<and> utt_text ` set f' \<subseteq> s'"
  proof
    assume "f' = f \<and> s' = s"
    with Cons.prems(2,3) show ?thesis by simp
  next
    assume a: "f' = f @ [entry_of u] \<and> s' = insert (utt_text (entry_of u)) s \<and>
      utt_text (entry_of u) \<notin> s"
    with Cons.prems(3) have "utt_text (entry_of u) \<notin> utt_text ` set f" by blast
    with a Cons.prems(2,3) show ?thesis by auto
  qed
  with Cons.IH[OF lp] show ?case by simp
qed

lemma filter_loop_indices:
  "filter_loop us f s = Inr out \<Longrightarrow>
   \<exists>ks. sorted_wrt (<) ks \<and> set ks \<subseteq> {..<length us} \<and>
        out = f @ map (\<lambda>k. entry_of (us ! k)) ks"
proof (induction us arbitrary: f s)
  case Nil
  then have "sorted_wrt (<) ([]::nat list) \<and>
    set ([]::nat list) \<subseteq> {..<length ([]::utterance list)} \<and>
    out = f @ map (\<lambda>k. entry_of ([] ! k)) []" by simp
  then show ?case by blast
next
  case (Cons u us)
  from Cons.prems(1) obtain f' s' where st: "filter_step u f s = Inr (f', s')"
    and lp: "filter_loop us f' s' = Inr out"
    by (rule filter_loop_Cons_Inr)
  from Cons.IH[OF lp] obtain ks where ks: "sorted_wrt (<) ks" "set ks \<subseteq> {..<length us}"
    "out = f' @ map (\<lambda>k. entry_of (us ! k)) ks"
    by blast
  have sh: "sorted_wrt (<) (map Suc ks)" "set (map Suc ks) \<subseteq> {..<length (u # us)}"
    "map (\<lambda>k. entry_of ((u # us) ! k)) (map Suc ks) = map (\<lambda>k. entry_of (us ! k)) ks"
    using ks(1,2) by (auto simp: sorted_wrt_map)
  from filter_step_cases[OF st] show ?case
  proof
    assume "f' = f \<and> s' = s"
    with ks(3) sh have "sorted_wrt (<) (map Suc ks) \<and>
      set (map Suc ks) \<subseteq> {..<length (u # us)} \<and>
      out = f @ map (\<lambda>k. entry_of ((u # us) ! k)) (map Suc ks)" by simp
    then show ?thesis by blast
  next
    assume "f' = f @ [entry_of u] \<and> s' = insert (utt_text (entry_of u)) s \<and>
      utt_text (entry_of u) \<notin> s"
    with ks(3) sh have "sorted_wrt (<) (0 # map Suc ks) \<and>
      set (0 # map Suc ks) \<subseteq> {..<length (u # us)} \<and>
      out = f @ map (\<lambda>k. entry_of ((u # us) ! k)) (0 # map Suc ks)" by auto
    then show ?thesis by blast
  qed
qed

lemma filter_loop_subseq:
  "filter_loop us f s = Inr out \<Longrightarrow> \<exists>ys. out = f @ ys \<and> subseq ys (map entry_of us)"
proof (induction us arbitrary: f s)
  case Nil
  then show ?case by simp
next
  case (Cons u us)
  from Cons.prems(1) obtain f' s' where st: "filter_step u f s = Inr (f', s')"
    and lp: "filter_loop us f' s' = Inr out"
    by (rule filter_loop_Cons_Inr)
  from Cons.IH[OF lp] obtain ys where ys: "out = f' @ ys" "subseq ys (map entry_of us)"
    by blast
  from filter_step_cases[OF st] show ?case
  proof
    assume "f' = f \<and> s' = s"
    with ys show ?thesis by auto
  next
    assume "f' = f @ [entry_of u] \<and> s' = insert (utt_text (entry_of u)) s \<and>
      utt_text (entry_of u) \<notin> s"
    with ys have "out = f @ (entry_of u # ys)" "subseq (entry_of u # ys) (map entry_of (u # us))"
      by auto
    then show ?thesis by blast
  qed
qed

lemmas run_simps =
  too_close_exact filter_duplicates_def filter_step_def keep_def entry_of_def utt_def wrd_def strip_def
  is_space_def format_diarized_transcription_def block_def blank_line_def

section \<open>Exact-duplicate suppression\<close>

text \<open>
  C1, as the specification has it: of two input utterances with the same trimmed text, at most
  the first one appears in the output. The code does not do that. A text enters
  \<^verbatim>\<open>seen_texts\<close> only when its utterance is kept, so an occurrence that the overlap test
  rejects leaves no trace and a later occurrence of the same text is kept. Below, the second
  and the third utterance both say \<open>again\<close>; the second starts 0.2 s after the end of the
  first and is dropped, and the third (start 5) is in the output.
\<close>

theorem filter_duplicates_keeps_later_occurrence:
  "filter_duplicates
     [utt ''hello'' 0 1 ''A'', utt ''again'' (6 / 5) 2 ''B'', utt ''again'' 5 6 ''B'']
   = Inr [\<lparr>start_time = Some 0, end_time = Some 1, speaker = Some ''A'', utt_text = ''hello''\<rparr>,
          \<lparr>start_time = Some 5, end_time = Some 6, speaker = Some ''B'', utt_text = ''again''\<rparr>]"
  by (simp add: run_simps)

text \<open>
  C1, amended: whenever \<^verbatim>\<open>filter_duplicates\<close> returns, the texts of the kept entries are
  pairwise distinct (no kept entry's text equals the text of an entry kept before it), and
  the kept entries are those of a strictly increasing list of input positions whose trimmed
  texts are pairwise distinct: of two input utterances with the same trimmed text at most
  one is kept, which need not be the first.
\<close>

theorem filter_duplicates_texts_distinct:
  assumes "filter_duplicates utterances = Inr out"
  shows "distinct (map utt_text out) \<and>
    (\<exists>ks. sorted_wrt (<) ks \<and> set ks \<subseteq> {..<length utterances} \<and>
          out = map (\<lambda>k. entry_of (utterances ! k)) ks \<and>
          distinct (map (\<lambda>k. utt_text (entry_of (utterances ! k))) ks))"
proof -
  from assms have lp: "filter_loop utterances [] {} = Inr out"
    by (simp add: filter_duplicates_def)
  from filter_loop_distinct[OF lp] have d: "distinct (map utt_text out)" by simp
  from filter_loop_indices[OF lp] obtain ks where ks: "sorted_wrt (<) ks"
    "set ks \<subseteq> {..<length utterances}" "out = map (\<lambda>k. entry_of (utterances ! k)) ks"
    by auto
  from d ks(3) have "distinct (map (\<lambda>k. utt_text (entry_of (utterances ! k))) ks)"
    by (simp add: comp_def)
  with d ks show ?thesis by blast
qed

theorem filter_duplicates_texts_distinct_witness:
  "filter_duplicates [utt ''hi '' 0 1 ''A'', utt '' hi'' 3 4 ''B'', utt ''yo'' 7 8 ''A'']
     = Inr [\<lparr>start_time = Some 0, end_time = Some 1, speaker = Some ''A'', utt_text = ''hi''\<rparr>,
            \<lparr>start_time = Some 7, end_time = Some 8, speaker = Some ''A'', utt_text = ''yo''\<rparr>] \<and>
   distinct (map utt_text
     [\<lparr>start_time = Some 0, end_time = Some 1, speaker = Some ''A'', utt_text = ''hi''\<rparr>,
      \<lparr>start_time = Some 7, end_time = Some 8, speaker = Some ''A'', utt_text = ''yo''\<rparr>])"
proof -
  have run: "filter_duplicates [utt ''hi '' 0 1 ''A'', utt '' hi'' 3 4 ''B'', utt ''yo'' 7 8 ''A'']
     = Inr [\<lparr>start_time = Some 0, end_time = Some 1, speaker = Some ''A'', utt_text = ''hi''\<rparr>,
            \<lparr>start_time = Some 7, end_time = Some 8, speaker = Some ''A'', utt_text = ''yo''\<rparr>]"
    by (simp add: run_simps)
  from filter_duplicates_texts_distinct[OF run] run show ?thesis by blast
qed

section \<open>Order preservation\<close>

text \<open>
  C5: whenever \<^verbatim>\<open>filter_duplicates\<close> returns, its result is a subsequence of the list of
  entries derived from the input utterances (trimmed text, defaulted speaker): every kept
  entry comes from an input position of its own, in the order of the input, and nothing is
  reordered, repeated or inserted.
\<close>

theorem filter_duplicates_subseq:
  assumes "filter_duplicates utterances = Inr out"
  shows "subseq out (map entry_of utterances)"
proof -
  from assms have "filter_loop utterances [] {} = Inr out"
    by (simp add: filter_duplicates_def)
  from filter_loop_subseq[OF this] show ?thesis by simp
qed

theorem filter_duplicates_subseq_witness:
  "filter_duplicates [utt ''one'' 0 1 ''A'', utt ''two'' 1 2 ''A'', utt ''three'' 4 5 ''B'']
     = Inr [entry_of (utt ''one'' 0 1 ''A''), entry_of (utt ''three'' 4 5 ''B'')] \<and>
   subseq [entry_of (utt ''one'' 0 1 ''A''), entry_of (utt ''three'' 4 5 ''B'')]
     (map entry_of [utt ''one'' 0 1 ''A'', utt ''two'' 1 2 ''A'', utt ''three'' 4 5 ''B''])"
proof -
  have run: "filter_duplicates
      [utt ''one'' 0 1 ''A'', utt ''two'' 1 2 ''A'', utt ''three'' 4 5 ''B'']
     = Inr [entry_of (utt ''one'' 0 1 ''A''), entry_of (utt ''three'' 4 5 ''B'')]"
    by (simp add: run_simps)
  from filter_duplicates_subseq[OF run] run show ?thesis by blast
qed

section \<open>Missing timestamps\<close>

lemma filter_step_missing:
  "u_start u = Absent \<or> u_end u = Absent \<Longrightarrow> \<exists>n. filter_step u f s = Inl (AttributeError n)"
  by (cases "u_transcript u"; cases "u_start u"; cases "u_end u") (auto simp: filter_step_def)

lemma filter_loop_missing:
  "u \<in> set us \<Longrightarrow> u_start u = Absent \<or> u_end u = Absent \<Longrightarrow> \<exists>e. filter_loop us f s = Inl e"
proof (induction us arbitrary: f s)
  case Nil
  then show ?case by simp
next
  case (Cons v vs)
  show ?case
  proof (cases "filter_step v f s")
    case (Inl e)
    then show ?thesis by simp
  next
    case (Inr p)
    obtain f' s' where p: "p = (f', s')" by (cases p)
    with Inr filter_step_missing[of v f s] Cons.prems have "u \<in> set vs" by auto
    from Cons.IH[OF this Cons.prems(2)] Inr p show ?thesis by simp
  qed
qed

text \<open>
  C2, as the specification has it: an utterance that lacks a start or end timestamp makes
  \<^verbatim>\<open>filter_duplicates\<close> and the pipeline fail fast with a \<^verbatim>\<open>MalformedInputError\<close>,
  never silently skipping or coercing the record. The code has no such error and validates
  nothing. An utterance whose \<^verbatim>\<open>end\<close> is \<^verbatim>\<open>None\<close> is kept and rendered when it is
  the only one, and an utterance without any timestamp value is skipped without a word when
  its text was seen before.
\<close>

theorem missing_timestamp_accepted:
  "format_diarized_transcription
     (Some [\<lparr>u_transcript = Val ''hello'', u_start = Val 0, u_end = PyNone,
             u_speaker = Val ''A''\<rparr>]) None
     = Inr ''A: hello'' \<and>
   filter_duplicates
     [utt ''hello'' 0 1 ''A'',
      \<lparr>u_transcript = Val ''hello'', u_start = PyNone, u_end = PyNone, u_speaker = Val ''B''\<rparr>]
     = Inr [\<lparr>start_time = Some 0, end_time = Some 1, speaker = Some ''A'', utt_text = ''hello''\<rparr>]"
  by (simp add: run_simps)

text \<open>
  C2, amended: when some utterance of the input has no \<^verbatim>\<open>start\<close> or no \<^verbatim>\<open>end\<close>
  attribute, \<^verbatim>\<open>filter_duplicates\<close> does not return: it ends in an error, and
  \<^verbatim>\<open>format_diarized_transcription\<close> on these utterances ends in the same error, whatever
  the words are. The iteration that reads such an utterance raises Python's
  \<^verbatim>\<open>AttributeError\<close> at the read, before the duplicate and the overlap test, whatever
  the loop variables hold.
\<close>

theorem missing_timestamp_raises:
  assumes "u \<in> set utterances" "u_start u = Absent \<or> u_end u = Absent"
  shows "(\<exists>e. filter_duplicates utterances = Inl e \<and>
              format_diarized_transcription (Some utterances) words = Inl e) \<and>
         (\<exists>n. filter_step u filtered seen_texts = Inl (AttributeError n))"
proof -
  from filter_loop_missing[OF assms] obtain e where e: "filter_duplicates utterances = Inl e"
    by (auto simp: filter_duplicates_def)
  from assms(1) have "utterances \<noteq> []" by auto
  with e have "format_diarized_transcription (Some utterances) words = Inl e"
    by (simp add: format_diarized_transcription_def)
  with e filter_step_missing[OF assms(2)] show ?thesis by blast
qed

theorem missing_timestamp_raises_witness:
  "filter_duplicates
     [utt ''hello'' 0 1 ''A'',
      \<lparr>u_transcript = Val ''hello'', u_start = Val 3, u_end = Absent, u_speaker = Val ''B''\<rparr>]
     = Inl (AttributeError ''end'') \<and>
   format_diarized_transcription (Some
     [utt ''hello'' 0 1 ''A'',
      \<lparr>u_transcript = Val ''hello'', u_start = Val 3, u_end = Absent, u_speaker = Val ''B''\<rparr>])
     None
     = Inl (AttributeError ''end'')"
  using missing_timestamp_raises[of
      "\<lparr>u_transcript = Val ''hello'', u_start = Val 3, u_end = Absent, u_speaker = Val ''B''\<rparr>"
      "[utt ''hello'' 0 1 ''A'',
      \<lparr>u_transcript = Val ''hello'', u_start = Val 3, u_end = Absent, u_speaker = Val ''B''\<rparr>]"
      None "[]" "{}"]
  by (simp add: run_simps)

section \<open>Overlap suppression\<close>

text \<open>
  C3: let B be the next candidate, with a transcript, a start time \<open>s\<close> and an end attribute.
  If the output so far is non-empty, its last entry A ends at \<open>e\<close> and
  \<^verbatim>\<open>abs(s - e) < 0.5\<close> holds as the code computes it, on the rounded difference of the
  two floats, the loop goes on with both variables unchanged, whatever the text of B is and
  whether B starts before or after the end of A. If the output so far is empty the timestamps
  are not looked at: B is kept as soon as its text is new.
\<close>

theorem overlap_suppression:
  assumes "u_transcript b = Val t" "u_start b = Val s" "u_end b \<noteq> Absent"
  shows "(filtered \<noteq> [] \<and> end_time (last filtered) = Some e \<and> \<bar>float_sub s e\<bar> < 1 / 2 \<longrightarrow>
           filter_loop (b # rest) filtered seen_texts = filter_loop rest filtered seen_texts) \<and>
         (strip t \<notin> seen_texts \<longrightarrow>
           filter_loop (b # rest) [] seen_texts =
           filter_loop rest [entry_of b] (insert (strip t) seen_texts))"
  using assms
  by (cases "u_end b") (auto simp: filter_step_def entry_of_def keep_def too_close.simps)

theorem overlap_suppression_witness:
  "\<bar>float_sub (3 / 4) 1\<bar> < 1 / 2 \<and>
   filter_loop [utt ''fresh words'' (3 / 4) 2 ''B'']
      [\<lparr>start_time = Some 0, end_time = Some 1, speaker = Some ''A'', utt_text = ''hello''\<rparr>]
      {''hello''}
    = Inr [\<lparr>start_time = Some 0, end_time = Some 1, speaker = Some ''A'', utt_text = ''hello''\<rparr>] \<and>
   filter_loop [utt ''fresh words'' (3 / 4) 2 ''B''] [] {}
    = Inr [\<lparr>start_time = Some (3 / 4), end_time = Some 2, speaker = Some ''B'',
            utt_text = ''fresh words''\<rparr>]"
proof -
  have close: "\<bar>float_sub (3 / 4) 1\<bar> < 1 / 2"
    by (simp only: float_sub_close_iff) simp
  from close
    overlap_suppression[of "utt ''fresh words'' (3 / 4) 2 ''B''" "''fresh words''" "3 / 4"
      "[\<lparr>start_time = Some 0, end_time = Some 1, speaker = Some ''A'', utt_text = ''hello''\<rparr>]"
      1 "[]" "{''hello''}"]
    overlap_suppression[of "utt ''fresh words'' (3 / 4) 2 ''B''" "''fresh words''" "3 / 4"
      "[]" 1 "[]" "{}"]
  show ?thesis
    by (simp add: utt_def entry_of_def keep_def strip_def is_space_def)
qed

section \<open>Grouping by speaker\<close>




section \<open>The fallback over words\<close>

lemma words_loop_first_occurrences:
  "words_loop (map wrd ts) seen acc =
   Inr (acc @ map (\<lambda>t. ''Unknown Speaker: '' @ t)
                (first_occurrences (filter (\<lambda>t. t \<notin> seen) (map strip ts))))"
proof (induction ts arbitrary: seen acc)
  case Nil
  then show ?case by simp
next
  case (Cons t ts)
  have "filter (\<lambda>y. y \<noteq> strip t) (filter (\<lambda>t. t \<notin> seen) (map strip ts)) =
        filter (\<lambda>ta. ta \<notin> insert (strip t) seen) (map strip ts)"
    by (auto intro: filter_cong)
  then show ?case using Cons.IH by (simp add: wrd_def)
qed

text \<open>
  C6: when the utterances are absent or empty and the words carry the texts \<open>ts\<close>, the result
  is one block \<open>Unknown Speaker: t\<close> for the first occurrence of every trimmed text \<open>t\<close>, in
  the order of the words and joined by blank lines: the only filter is the exact one on the
  trimmed text, and no two words share a block. For words \<open>w1, w1, w2\<close> with different
  trimmed texts this is \<open>Unknown Speaker: w1\<close>, a blank line, \<open>Unknown Speaker: w2\<close>.
\<close>

theorem fallback_no_grouping:
  assumes "\<not> truthy utterances"
  shows "format_diarized_transcription utterances (Some (map wrd ts)) =
           Inr (str_join blank_line
                  (map (\<lambda>t. ''Unknown Speaker: '' @ t) (first_occurrences (map strip ts)))) \<and>
         (strip w1 \<noteq> strip w2 \<longrightarrow>
            format_diarized_transcription utterances (Some [wrd w1, wrd w1, wrd w2]) =
              Inr (''Unknown Speaker: '' @ strip w1 @ blank_line @
                   ''Unknown Speaker: '' @ strip w2))"
proof -
  have gen: "format_diarized_transcription utterances (Some (map wrd ts)) =
           Inr (str_join blank_line
                  (map (\<lambda>t. ''Unknown Speaker: '' @ t) (first_occurrences (map strip ts))))" for ts
    using assms words_loop_first_occurrences[of ts "{}" "[]"]
    by (cases ts) (simp_all add: format_diarized_transcription_def)
  from gen[of "[w1, w1, w2]"] gen[of ts] show ?thesis by auto
qed

theorem fallback_no_grouping_witness:
  "\<not> truthy (Some ([]::utterance list)) \<and>
   format_diarized_transcription (Some []) (Some [wrd ''Hello,'', wrd ''Hello, '', wrd ''world.''])
     = Inr (''Unknown Speaker: Hello,'' @ blank_line @ ''Unknown Speaker: world.'')"
proof -
  have h: "\<not> truthy (Some ([]::utterance list))" by simp
  from fallback_no_grouping[OF h, of "[''Hello,'', ''Hello, '', ''world.'']"] h
  show ?thesis by (simp add: strip_def is_space_def)
qed

text \<open>
  C9: in the fallback loop a word whose text trims to the empty string is treated like any
  other text. If the empty string was not seen yet, the block \<open>Unknown Speaker: \<close> (nothing
  after the space) is appended and the empty string is recorded; if it was seen, the word is
  dropped. A single such word gives exactly that block.
\<close>

theorem fallback_empty_word:
  assumes "punctuated_word w = Val t" "strip t = []"
  shows "words_loop (w # rest) seen_texts speaker_transcriptions =
           (if [] \<in> seen_texts then words_loop rest seen_texts speaker_transcriptions
            else words_loop rest (insert [] seen_texts)
                   (speaker_transcriptions @ [''Unknown Speaker: ''])) \<and>
         (\<not> truthy utterances \<longrightarrow>
            format_diarized_transcription utterances (Some [w]) = Inr ''Unknown Speaker: '')"
  using assms by (simp add: format_diarized_transcription_def)

theorem fallback_empty_word_witness:
  "format_diarized_transcription None (Some [wrd ''  '']) = Inr ''Unknown Speaker: '' \<and>
   words_loop [wrd ''  '', wrd ''hi'', wrd []] {} [] =
     Inr [''Unknown Speaker: '', ''Unknown Speaker: hi'']"
proof -
  have h: "punctuated_word (wrd ''  '') = Val ''  ''" "strip ''  '' = []"
    by (simp_all add: wrd_def strip_def is_space_def)
  from fallback_empty_word[OF h, of "[wrd ''hi'', wrd []]" "{}" "[]" None]
  show ?thesis by (simp add: wrd_def strip_def is_space_def)
qed

section \<open>Choice of the path\<close>

text \<open>
  C7: when the utterances are given and non-empty, the result does not depend on the words
  argument at all; the loop over the words decides the result only when the utterances are
  absent or empty (and the words are non-empty).
\<close>

theorem utterances_take_priority:
  "(truthy utterances \<longrightarrow>
      format_diarized_transcription utterances words =
      format_diarized_transcription utterances None) \<and>
   (\<not> truthy utterances \<and> truthy (Some ws) \<longrightarrow>
      format_diarized_transcription utterances (Some ws) =
        (case words_loop ws {} [] of Inl e \<Rightarrow> Inl e
         | Inr speaker_transcriptions \<Rightarrow> Inr (str_join blank_line speaker_transcriptions)))"
  by (simp add: format_diarized_transcription_def)

theorem utterances_take_priority_witness:
  "format_diarized_transcription (Some [utt ''hello'' 0 1 ''A'']) (Some [wrd ''ignored''])
     = Inr ''A: hello'' \<and>
   format_diarized_transcription (Some []) (Some [wrd ''used'']) = Inr ''Unknown Speaker: used''"
proof -
  have h: "truthy (Some [utt ''hello'' 0 1 ''A''])" "\<not> truthy (Some ([]::utterance list))"
    "truthy (Some [wrd ''used''])"
    by simp_all
  have none: "format_diarized_transcription (Some [utt ''hello'' 0 1 ''A'']) None
    = Inr ''A: hello''"
    by (simp add: run_simps)
  from utterances_take_priority[of "Some [utt ''hello'' 0 1 ''A'']" "Some [wrd ''ignored'']"
      "[wrd ''used'']"]
    utterances_take_priority[of "Some []" None "[wrd ''used'']"] h none
  show ?thesis by (simp add: wrd_def strip_def is_space_def)
qed

text \<open>
  C8: with no utterances and no words (each of them absent or empty) the result is the empty
  string, and no error.
\<close>

theorem empty_input_empty_string:
  "format_diarized_transcription None None = Inr [] \<and>
   format_diarized_transcription (Some []) (Some []) = Inr [] \<and>
   format_diarized_transcription None (Some []) = Inr [] \<and>
   format_diarized_transcription (Some []) None = Inr []"
  by (simp add: format_diarized_transcription_def)

section \<open>The first utterance is always kept\<close>

text \<open>
  On a non-empty input that does not raise, the first utterance passes both tests (nothing was
  seen, nothing was kept), so the result of \<^verbatim>\<open>filter_duplicates\<close> starts with its entry
  and is never empty.
\<close>

lemma filter_loop_prefix:
  "filter_loop us f s = Inr out \<Longrightarrow> prefix f out"
  using filter_loop_subseq by fastforce

lemma filter_duplicates_keeps_first:
  assumes "filter_duplicates (u # us) = Inr out"
  shows "out \<noteq> [] \<and> hd out = entry_of u"
proof -
  from assms obtain f' s' where st: "filter_step u [] {} = Inr (f', s')"
    and lp: "filter_loop us f' s' = Inr out"
    unfolding filter_duplicates_def by (rule filter_loop_Cons_Inr)
  from st have "f' = [entry_of u]"
    by (cases "u_transcript u"; cases "u_start u"; cases "u_end u")
       (auto simp: filter_step_def entry_of_def)
  with filter_loop_prefix[OF lp] show ?thesis by (auto simp: prefix_def)
qed

end
